theory Spec2Isabelle
  imports Complex_Main
begin

section \<open>Single-precision arithmetic\<close>

text \<open>
  The C source computes in \<^verbatim>\<open>float\<close>.  A finite binary32 value is a rational number, and
  every arithmetic operation returns the exact rational result rounded to the nearest
  binary32 value, ties to the even significand (24 significant bits, least exponent
  \<open>2 ^ - 149\<close>).  Infinities and NaN are not represented: no operation of this program
  reaches the overflow threshold \<open>2 ^ 128\<close> from the values it starts with.
\<close>

type_synonym float32 = real

definition pow2 :: "int \<Rightarrow> real" where
  "pow2 e = (if 0 \<le> e then 2 ^ nat e else 1 / 2 ^ nat (- e))"

text \<open>Number of binary digits of a natural number.\<close>

fun blen :: "nat \<Rightarrow> nat" where
  "blen n = (if n = 0 then 0 else Suc (blen (n div 2)))"

declare blen.simps [simp del]

text \<open>\<open>ilog2 a\<close> is the integer part of the binary logarithm of a positive rational.\<close>

definition ilog2 :: "real \<Rightarrow> int" where
  "ilog2 a = (if 1 \<le> a then int (blen (nat \<lfloor>a\<rfloor>)) - 1
              else - int (blen (nat (\<lceil>1 / a\<rceil> - 1))))"

text \<open>Rounding to the nearest integer, a tie going to the even neighbour.\<close>

definition rhe :: "real \<Rightarrow> int" where
  "rhe r = (if r - of_int \<lfloor>r\<rfloor> < 1 / 2 then \<lfloor>r\<rfloor>
            else if 1 / 2 < r - of_int \<lfloor>r\<rfloor> then \<lfloor>r\<rfloor> + 1
            else if even \<lfloor>r\<rfloor> then \<lfloor>r\<rfloor> else \<lfloor>r\<rfloor> + 1)"

text \<open>
  \<open>quantize a e\<close> is the multiple of \<open>2 ^ e\<close> nearest to \<open>a\<close>; the exponent of the last
  place of a positive \<open>a\<close> is \<open>ilog2 a - 23\<close>, and \<open>- 149\<close> for the subnormal numbers.
\<close>

definition quantize :: "real \<Rightarrow> int \<Rightarrow> real" where
  "quantize a e = of_int (rhe (a / pow2 e)) * pow2 e"

definition rnd_mag :: "real \<Rightarrow> real" where
  "rnd_mag a = quantize a (max (ilog2 a - 23) (- 149))"

definition rnd32 :: "real \<Rightarrow> float32" where
  "rnd32 q = (if q = 0 then 0 else if 0 < q then rnd_mag q else - rnd_mag (- q))"

definition fadd :: "float32 \<Rightarrow> float32 \<Rightarrow> float32" where
  "fadd a b = rnd32 (a + b)"

definition fsub :: "float32 \<Rightarrow> float32 \<Rightarrow> float32" where
  "fsub a b = rnd32 (a - b)"

definition fmul :: "float32 \<Rightarrow> float32 \<Rightarrow> float32" where
  "fmul a b = rnd32 (a * b)"

definition fdiv :: "float32 \<Rightarrow> float32 \<Rightarrow> float32" where
  "fdiv a b = rnd32 (a / b)"

text \<open>Conversion of an \<^verbatim>\<open>int\<close> to \<^verbatim>\<open>float\<close>.\<close>

definition i2f :: "int \<Rightarrow> float32" where
  "i2f n = rnd32 (of_int n)"

definition floorf :: "float32 \<Rightarrow> float32" where
  "floorf a = of_int \<lfloor>a\<rfloor>"

definition INT_MAX :: int where
  "INT_MAX = 2 ^ 31 - 1"

definition INT_MIN :: int where
  "INT_MIN = - (2 ^ 31)"

text \<open>
  The cast \<^verbatim>\<open>(int)\<close> of a \<^verbatim>\<open>float\<close> truncates toward zero.  Outside the range of
  \<^verbatim>\<open>int\<close> ISO C leaves the result undefined; the conversion routine of the target
  (ARM EABI) saturates, which is what is written here.
\<close>

definition f2i :: "float32 \<Rightarrow> int" where
  "f2i a = (let t = (if 0 \<le> a then \<lfloor>a\<rfloor> else \<lceil>a\<rceil>) in
     if INT_MAX < t then INT_MAX else if t < INT_MIN then INT_MIN else t)"

text \<open>32-bit two's complement wrap-around of \<^verbatim>\<open>int\<close> arithmetic.\<close>

definition wrap32 :: "int \<Rightarrow> int" where
  "wrap32 v = (v + 2 ^ 31) mod 2 ^ 32 - 2 ^ 31"

definition c_abs :: "int \<Rightarrow> int" where
  "c_abs v = wrap32 \<bar>v\<bar>"

section \<open>Constants and data\<close>

definition BASE_PINS :: nat where
  "BASE_PINS = 15"

definition ROWS :: nat where
  "ROWS = BASE_PINS"

definition TOTAL_BALLS :: nat where
  "TOTAL_BALLS = 100"

definition RELEASE_DELAY :: int where
  "RELEASE_DELAY = 10000"

definition NUM_BINS :: nat where
  "NUM_BINS = 7"

record ball =
  pos_x :: float32
  pos_y :: float32
  active :: bool
  counted :: bool
  last_row :: int

record pin =
  pin_x :: int
  pin_y :: int

text \<open>
  The file-level variables written by \<^verbatim>\<open>init_pins\<close> and only read afterwards.
\<close>

record geom =
  display_width :: int
  display_height :: int
  step_x :: float32
  step_y :: float32
  pins :: "pin list list"
  pins_per_row :: "int list"
  bin_x :: "int list"

section \<open>Lattice generation\<close>

text \<open>
  \<^verbatim>\<open>ssd1306_width\<close> and \<^verbatim>\<open>ssd1306_n_pages\<close> come from the display driver's header, which
  is not part of the source tree: they are the parameters \<open>w\<close> and \<open>n_pages\<close>.  The
  board's display is 128 pixels wide and has 8 pages of 8 rows.
\<close>

definition pin_at :: "int \<Rightarrow> float32 \<Rightarrow> float32 \<Rightarrow> nat \<Rightarrow> nat \<Rightarrow> pin" where
  "pin_at dw sx sy r c =
     (let count = int r + 1;
          shift_x = fmul (fsub (i2f (dw - 1)) (fmul (i2f (count - 1)) sx)) (1 / 2)
      in \<lparr>pin_x = f2i (fadd (fadd shift_x (fmul (i2f (int c)) sx)) (1 / 2)),
          pin_y = f2i (fadd (fmul (i2f (int r)) sy) (1 / 2))\<rparr>)"

text \<open>
  One pass of the outer loop: row \<open>r\<close> of the static (zero-initialised) matrix, of which
  the first \<open>r + 1\<close> entries are written.
\<close>

definition pin_row :: "int \<Rightarrow> float32 \<Rightarrow> float32 \<Rightarrow> nat \<Rightarrow> pin list" where
  "pin_row dw sx sy r =
     map (pin_at dw sx sy r) [0..<r + 1] @
     replicate (BASE_PINS - (r + 1)) \<lparr>pin_x = 0, pin_y = 0\<rparr>"

definition bin_at :: "int \<Rightarrow> float32 \<Rightarrow> nat \<Rightarrow> int" where
  "bin_at start bin_step i = f2i (fadd (fadd (i2f start) (fmul (i2f (int i)) bin_step)) (1 / 2))"

definition init_pins :: "nat \<Rightarrow> nat \<Rightarrow> geom" where
  "init_pins w n_pages =
     (let dw = int w;
          dh = int n_pages * 8;
          half_h = dh div 2;
          sx = fdiv (fmul (i2f dw) (1 / 2)) (i2f (int BASE_PINS - 1));
          sy = fdiv (i2f (half_h - 1)) (i2f (int ROWS - 1));
          ps = map (pin_row dw sx sy) [0..<ROWS];
          ppr = map (\<lambda>r. int r + 1) [0..<ROWS];
          start = pin_x (ps ! (ROWS - 1) ! 0);
          end = pin_x (ps ! (ROWS - 1) ! nat (ppr ! (ROWS - 1) - 1));
          bin_step = fdiv (i2f (end - start)) (i2f (int NUM_BINS - 1))
      in \<lparr>display_width = dw, display_height = dh, step_x = sx, step_y = sy,
          pins = ps, pins_per_row = ppr,
          bin_x = map (bin_at start bin_step) [0..<NUM_BINS]\<rparr>)"

section \<open>Particle motion\<close>

definition init_ball :: "geom \<Rightarrow> ball \<Rightarrow> ball" where
  "init_ball g b =
     b\<lparr>pos_x := i2f (pin_x (pins g ! 0 ! 0)), pos_y := 0, active := True,
       counted := False, last_row := - 1\<rparr>"

text \<open>
  \<open>rand k\<close> is the value returned by the \<open>k\<close>-th call of the C library's \<^verbatim>\<open>rand\<close>;
  the number of calls made so far is threaded through.
\<close>

definition random_dir :: "(nat \<Rightarrow> nat) \<Rightarrow> nat \<Rightarrow> nat \<times> nat" where
  "random_dir rand k = (rand k mod 2, Suc k)"

definition row_of :: "geom \<Rightarrow> float32 \<Rightarrow> int" where
  "row_of g y = f2i (floorf (fdiv (fadd y (fmul (step_y g) (1 / 2))) (step_y g)))"

definition update_ball :: "geom \<Rightarrow> (nat \<Rightarrow> nat) \<Rightarrow> ball \<times> nat \<Rightarrow> ball \<times> nat" where
  "update_ball g rand bk =
     (let (b, k) = bk in
      if \<not> active b then (b, k)
      else
        let b1 = b\<lparr>pos_y := fadd (pos_y b) (3 / 2)\<rparr>;
            row = row_of g (pos_y b1);
            (b2, k2) =
              (if row \<noteq> last_row b1 \<and> 0 \<le> row \<and> row < int ROWS
               then let (d, k') = random_dir rand k
                    in (b1\<lparr>pos_x := fadd (pos_x b1) (if d \<noteq> 0 then step_x g else - step_x g),
                           last_row := row\<rparr>, k')
               else (b1, k));
            b3 = (if i2f (display_height g) \<le> pos_y b2 then b2\<lparr>active := False\<rparr> else b2)
        in (b3, k2))"

text \<open>
  A particle advanced by repeated calls until it leaves the board, as the main loop does
  with every slot.  The state carried along is the particle with the count of \<^verbatim>\<open>rand\<close>
  calls, the number of updates made, and the rows in which the particle was deflected
  (an update that called \<^verbatim>\<open>rand\<close> deflected it).  The fuel bounds the number of calls;
  \<open>None\<close> means that the particle is still falling when it is used up.
\<close>

definition advance ::
  "geom \<Rightarrow> (nat \<Rightarrow> nat) \<Rightarrow> (ball \<times> nat) \<times> nat \<times> int list \<Rightarrow> (ball \<times> nat) \<times> nat \<times> int list" where
  "advance g rand st =
     (let (bk, calls, rows) = st;
          bk' = update_ball g rand bk
      in (bk', Suc calls, if snd bk' = snd bk then rows else rows @ [last_row (fst bk')]))"

fun fall ::
  "nat \<Rightarrow> geom \<Rightarrow> (nat \<Rightarrow> nat) \<Rightarrow> (ball \<times> nat) \<times> nat \<times> int list \<Rightarrow> (ball \<times> nat \<times> int list) option" where
  "fall 0 g rand st = (if active (fst (fst st)) then None else Some (fst (fst st), snd st))"
| "fall (Suc n) g rand st =
     (if active (fst (fst st)) then fall n g rand (advance g rand st)
      else Some (fst (fst st), snd st))"

section \<open>Simulation state and reset\<close>

text \<open>
  The particle slots, the bin counters and the local variables of \<^verbatim>\<open>main\<close>.  The
  frame buffer is written by the drawing calls only and read by none of the operations
  below; it is left out.
\<close>

record sim =
  running :: bool
  ball_count :: int
  last_rel :: int
  last_btn_a :: bool
  last_btn_b :: bool
  balls :: "ball list"
  bins :: "int list"
  rand_calls :: nat

definition reset_ball :: "ball \<Rightarrow> ball" where
  "reset_ball b = b\<lparr>counted := False, active := False\<rparr>"

definition reset_simulation :: "sim \<Rightarrow> sim" where
  "reset_simulation s =
     s\<lparr>balls := fold (\<lambda>i bs. bs[i := reset_ball (bs ! i)]) [0..<TOTAL_BALLS] (balls s),
       bins := fold (\<lambda>i xs. xs[i := 0]) [0..<NUM_BINS] (bins s)\<rparr>"

section \<open>Bin accumulation\<close>

definition scan_step :: "int list \<Rightarrow> int \<Rightarrow> nat \<Rightarrow> int \<times> nat \<Rightarrow> int \<times> nat" where
  "scan_step bx xi j acc =
     (let dist = c_abs (wrap32 (xi - bx ! j))
      in if dist < fst acc then (dist, j) else acc)"

definition nearest_bin :: "geom \<Rightarrow> ball \<Rightarrow> nat" where
  "nearest_bin g b = snd (fold (scan_step (bin_x g) (f2i (pos_x b))) [0..<NUM_BINS] (10000, 0))"

definition settle :: "geom \<Rightarrow> ball \<Rightarrow> int list \<Rightarrow> ball \<times> int list" where
  "settle g b bs =
     (let idx = nearest_bin g b
      in (b\<lparr>counted := True\<rparr>, bs[idx := wrap32 (bs ! idx + 1)]))"

section \<open>The main loop\<close>

text \<open>
  What one pass of the loop reads from outside: the two buttons (pressed = \<open>True\<close>) and the
  clock at the three places where \<^verbatim>\<open>get_absolute_time\<close> is called, in microseconds.
\<close>

record inputs =
  btn_a :: bool
  btn_b :: bool
  t_start :: int
  t_check :: int
  t_spawn :: int

definition handle_start :: "inputs \<Rightarrow> sim \<Rightarrow> sim" where
  "handle_start inp s =
     (if btn_a inp \<and> \<not> last_btn_a s \<and> \<not> running s
      then (reset_simulation (s\<lparr>running := True, ball_count := 0\<rparr>))\<lparr>last_rel := t_start inp\<rparr>
      else s)"

definition handle_stop :: "inputs \<Rightarrow> sim \<Rightarrow> sim" where
  "handle_stop inp s =
     (if btn_b inp \<and> \<not> last_btn_b s
      then reset_simulation (s\<lparr>running := False\<rparr>)
      else s)"

definition poll_buttons :: "inputs \<Rightarrow> sim \<Rightarrow> sim" where
  "poll_buttons inp s =
     (handle_stop inp (handle_start inp s))\<lparr>last_btn_a := btn_a inp, last_btn_b := btn_b inp\<rparr>"

definition spawn :: "geom \<Rightarrow> inputs \<Rightarrow> sim \<Rightarrow> sim" where
  "spawn g inp s =
     (if ball_count s < int TOTAL_BALLS \<and> RELEASE_DELAY \<le> t_check inp - last_rel s
      then s\<lparr>balls := (balls s)[nat (ball_count s) := init_ball g (balls s ! nat (ball_count s))],
             ball_count := ball_count s + 1,
             last_rel := t_spawn inp\<rparr>
      else s)"

definition ball_step :: "geom \<Rightarrow> (nat \<Rightarrow> nat) \<Rightarrow> nat \<Rightarrow> sim \<Rightarrow> sim" where
  "ball_step g rand i s =
     (let b = balls s ! i in
      if active b
      then case update_ball g rand (b, rand_calls s) of
             (b', k') \<Rightarrow> s\<lparr>balls := (balls s)[i := b'], rand_calls := k'\<rparr>
      else if \<not> counted b
      then case settle g b (bins s) of
             (b', bs') \<Rightarrow> s\<lparr>balls := (balls s)[i := b'], bins := bs'\<rparr>
      else s)"

definition finish_check :: "sim \<Rightarrow> sim" where
  "finish_check s =
     (if int TOTAL_BALLS \<le> ball_count s
      then (if list_ex active (take TOTAL_BALLS (balls s)) then s else s\<lparr>running := False\<rparr>)
      else s)"

definition main_loop_body :: "geom \<Rightarrow> (nat \<Rightarrow> nat) \<Rightarrow> inputs \<Rightarrow> sim \<Rightarrow> sim" where
  "main_loop_body g rand inp s =
     (let s1 = poll_buttons inp s in
      if running s1
      then (let s2 = spawn g inp s1
            in finish_check (fold (ball_step g rand) [0..<nat (ball_count s2)] s2))
      else s1)"

text \<open>The state in which the loop is entered: zeroed statics after \<^verbatim>\<open>reset_simulation\<close>.\<close>

definition zero_ball :: ball where
  "zero_ball = \<lparr>pos_x = 0, pos_y = 0, active = False, counted = False, last_row = 0\<rparr>"

definition initial_state :: "int \<Rightarrow> sim" where
  "initial_state t0 =
     reset_simulation
       \<lparr>running = False, ball_count = 0, last_rel = t0, last_btn_a = False, last_btn_b = False,
        balls = replicate TOTAL_BALLS zero_ball, bins = replicate NUM_BINS 0, rand_calls = 0\<rparr>"

section \<open>The board of the device\<close>

text \<open>
  The header of the source names the board: a BitDogLab, whose SSD1306 display is 128 pixels
  wide and has 8 pages, that is 64 rows.  \<open>board\<close> is the lattice generated for it, and
  \<open>always_right\<close> a source of random numbers that sends every deflection to the right.
\<close>

definition board :: geom where
  "board = init_pins 128 8"

definition always_right :: "nat \<Rightarrow> nat" where
  "always_right k = 1"

text \<open>What of the state of a fall does not depend on the random numbers drawn.\<close>

definition shape ::
  "(ball \<times> nat) \<times> nat \<times> int list \<Rightarrow> (float32 \<times> int \<times> bool) \<times> nat \<times> int list" where
  "shape st = ((pos_y (fst (fst st)), last_row (fst (fst st)), active (fst (fst st))), snd st)"

section \<open>The lattice formulas in exact arithmetic\<close>

text \<open>
  The positions that the assignments of \<^verbatim>\<open>init_pins\<close> denote when read over the real
  numbers, before conversion to a pixel: the steps, the offset of row \<open>r\<close> (which has
  \<open>r + 1\<close> pins) and the position of pin \<open>c\<close> of row \<open>r\<close>.
\<close>

definition ideal_step_x :: "int \<Rightarrow> real" where
  "ideal_step_x dw = (of_int dw / 2) / (of_nat BASE_PINS - 1)"

definition ideal_step_y :: "int \<Rightarrow> real" where
  "ideal_step_y dh = of_int (dh div 2 - 1) / (of_nat ROWS - 1)"

definition ideal_shift_x :: "int \<Rightarrow> nat \<Rightarrow> real" where
  "ideal_shift_x dw r = ((of_int dw - 1) - of_nat r * ideal_step_x dw) / 2"

definition ideal_pin_x :: "int \<Rightarrow> nat \<Rightarrow> nat \<Rightarrow> real" where
  "ideal_pin_x dw r c = ideal_shift_x dw r + of_nat c * ideal_step_x dw"

definition ideal_pin_y :: "int \<Rightarrow> nat \<Rightarrow> real" where
  "ideal_pin_y dh r = of_nat r * ideal_step_y dh"

text \<open>
  The formulas as the specification words them: the vertical step is half the display
  height over \<open>rows - 1\<close>, and the offset of a row is
  \<open>(display_width - (count - 1) * step_x) / 2\<close>.
\<close>

definition spec_step_y :: "int \<Rightarrow> real" where
  "spec_step_y dh = (of_int dh / 2) / (of_nat ROWS - 1)"

definition spec_pin_y :: "int \<Rightarrow> nat \<Rightarrow> real" where
  "spec_pin_y dh r = of_nat r * spec_step_y dh"

definition spec_shift_x :: "int \<Rightarrow> nat \<Rightarrow> real" where
  "spec_shift_x dw r = (of_int dw - of_nat r * ideal_step_x dw) / 2"

definition spec_pin_x :: "int \<Rightarrow> nat \<Rightarrow> nat \<Rightarrow> real" where
  "spec_pin_x dw r c = spec_shift_x dw r + of_nat c * ideal_step_x dw"

section \<open>Invariant of the main loop\<close>

text \<open>
  What holds of the slots and the counters whenever the loop is at the top of a pass: the
  arrays have their declared sizes; the slots from \<open>ball_count\<close> on are idle; no slot is both
  falling and counted; the bins hold exactly the counted slots.
\<close>

definition core_inv :: "sim \<Rightarrow> bool" where
  "core_inv s \<longleftrightarrow>
     length (balls s) = TOTAL_BALLS \<and> length (bins s) = NUM_BINS \<and>
     0 \<le> ball_count s \<and> ball_count s \<le> int TOTAL_BALLS \<and>
     list_all (\<lambda>b. \<not> active b \<and> \<not> counted b) (drop (nat (ball_count s)) (balls s)) \<and>
     list_all (\<lambda>b. \<not> (active b \<and> counted b)) (balls s) \<and>
     list_all (\<lambda>v. 0 \<le> v) (bins s) \<and>
     sum_list (bins s) = int (length (filter counted (balls s)))"

text \<open>A run that has released every particle goes on for as long as one is falling.\<close>

definition sim_inv :: "sim \<Rightarrow> bool" where
  "sim_inv s \<longleftrightarrow>
     core_inv s \<and>
     (if running s \<and> int TOTAL_BALLS \<le> ball_count s then list_ex active (balls s) else True)"

section \<open>Particles in flight\<close>

text \<open>
  \<open>flight g b m\<close>: the particle \<open>b\<close> has been released at the apex by \<^verbatim>\<open>init_ball\<close> and has since
  been changed only by calls of \<^verbatim>\<open>update_ball\<close>, of which \<open>m\<close> deflected it (drew a random
  number), and by assignments to its \<open>counted\<close> flag.
\<close>

inductive flight :: "geom \<Rightarrow> ball \<Rightarrow> nat \<Rightarrow> bool" for g :: geom where
  released: "flight g (init_ball g b0) 0"
| updated: "flight g b m \<Longrightarrow> update_ball g rand (b, k) = (b', k') \<Longrightarrow>
            flight g b' (if k' = k then m else Suc m)"
| credited: "flight g b m \<Longrightarrow> flight g (b\<lparr>counted := c\<rparr>) m"





text \<open>
  During a run every slot below \<open>ball_count\<close> holds a particle in flight: the slots that the
  loop over the particles visits, and so every particle it settles.
\<close>

definition track_inv :: "geom \<Rightarrow> sim \<Rightarrow> bool" where
  "track_inv g s \<longleftrightarrow>
     core_inv s \<and>
     (if running s
      then list_all (\<lambda>b. \<exists>m. flight g b m) (take (nat (ball_count s)) (balls s))
      else True)"

section \<open>Sample inputs and states\<close>

text \<open>
  Button readings for one pass of the loop: only A pressed (with the release delay elapsed),
  only B pressed, none pressed.
\<close>

definition press_a :: inputs where
  "press_a = \<lparr>btn_a = True, btn_b = False, t_start = 0, t_check = 10000, t_spawn = 10000\<rparr>"

definition press_b :: inputs where
  "press_b = \<lparr>btn_a = False, btn_b = True, t_start = 20000, t_check = 20000, t_spawn = 20000\<rparr>"

definition no_buttons :: inputs where
  "no_buttons = \<lparr>btn_a = False, btn_b = False, t_start = 0, t_check = 0, t_spawn = 0\<rparr>"

text \<open>The state after the first pass in which the start button is pressed.\<close>

definition started :: sim where
  "started = main_loop_body board always_right press_a (initial_state 0)"

text \<open>
  The last pass of a run: every particle has been released, 99 of them have been counted
  and the last one is one update away from the lower edge.
\<close>

definition done_ball :: ball where
  "done_ball = \<lparr>pos_x = 64, pos_y = 129 / 2, active = False, counted = True, last_row = 14\<rparr>"

definition last_ball :: ball where
  "last_ball = \<lparr>pos_x = 64, pos_y = 63, active = True, counted = False, last_row = 14\<rparr>"

definition last_pass :: sim where
  "last_pass =
     \<lparr>running = True, ball_count = 100, last_rel = 0, last_btn_a = False, last_btn_b = False,
      balls = replicate 99 done_ball @ [last_ball], bins = [0, 0, 0, 99, 0, 0, 0],
      rand_calls = 1386\<rparr>"

text \<open>
  A particle one update above the lower edge, and one far to the right of the display.
\<close>

definition edge_ball :: ball where
  "edge_ball = \<lparr>pos_x = 64, pos_y = 125 / 2, active = True, counted = False, last_row = 14\<rparr>"

definition far_ball :: ball where
  "far_ball = \<lparr>pos_x = 1000000, pos_y = 129 / 2, active = False, counted = False, last_row = 14\<rparr>"

text \<open>
  The state after one more pass with both buttons released, and a pass in which the first
  particle, deflected to the right in every row, has left the board and waits for its bin.
\<close>

definition released :: sim where
  "released = main_loop_body board always_right no_buttons started"



section \<open>Lists and loops over arrays\<close>

text \<open>
  Counting and summing after one element of an array has been overwritten, and the loops
  of \<^verbatim>\<open>reset_simulation\<close> as maps over the declared range of indices.
\<close>

lemma filter_update_same:
  "i < length xs \<Longrightarrow> P y = P (xs ! i) \<Longrightarrow> length (filter P (xs[i := y])) = length (filter P xs)"
proof (induction xs arbitrary: i)
  case Nil
  then show ?case by simp
next
  case (Cons x xs)
  then show ?case by (cases i) auto
qed

lemma filter_update_new:
  "i < length xs \<Longrightarrow> P y \<Longrightarrow> \<not> P (xs ! i) \<Longrightarrow>
   length (filter P (xs[i := y])) = Suc (length (filter P xs))"
proof (induction xs arbitrary: i)
  case Nil
  then show ?case by simp
next
  case (Cons x xs)
  then show ?case by (cases i) auto
qed

lemma sum_list_update_int:
  fixes xs :: "int list"
  shows "i < length xs \<Longrightarrow> sum_list (xs[i := v]) = sum_list xs - xs ! i + v"
proof (induction xs arbitrary: i)
  case Nil
  then show ?case by simp
next
  case (Cons x xs)
  then show ?case by (cases i) auto
qed

lemma nth_le_sum_list:
  fixes xs :: "int list"
  shows "list_all (\<lambda>v. 0 \<le> v) xs \<Longrightarrow> i < length xs \<Longrightarrow> xs ! i \<le> sum_list xs"
proof (induction xs arbitrary: i)
  case Nil
  then show ?case by simp
next
  case (Cons x xs)
  have "0 \<le> sum_list xs"
    using Cons.prems(1) by (auto simp add: list_all_iff intro: sum_list_nonneg)
  then show ?case
    using Cons by (cases i) (auto simp add: add.commute add_increasing)
qed

lemma list_all_update:
  "list_all P xs \<Longrightarrow> P y \<Longrightarrow> list_all P (xs[i := y])"
  using set_update_subset_insert [of xs i y] by (auto simp add: list_all_iff)

lemma fold_update_upt:
  "fold (\<lambda>i xs. xs[i := f (xs ! i)]) [0..<n] xs = map f (take n xs) @ drop n xs"
proof (induction n)
  case 0
  show ?case by simp
next
  case (Suc n)
  show ?case
  proof (cases "n < length xs")
    case True
    have len: "length (map f (take n xs)) = n"
      using True by simp
    have split: "drop n xs = xs ! n # drop (Suc n) xs"
      using True by (simp add: Cons_nth_drop_Suc)
    have "(map f (take n xs) @ xs ! n # drop (Suc n) xs)[n := f ((map f (take n xs) @ xs ! n # drop (Suc n) xs) ! n)]
          = map f (take n xs) @ f (xs ! n) # drop (Suc n) xs"
      using len by (metis list_update_length nth_append_length)
    then show ?thesis
      using True Suc by (simp add: split take_Suc_conv_app_nth)
  next
    case False
    then show ?thesis
      using Suc by (simp add: list_update_beyond)
  qed
qed

lemma fold_zero_upt:
  "fold (\<lambda>i xs. xs[i := (0::int)]) [0..<n] xs = map (\<lambda>_. 0) (take n xs) @ drop n xs"
  using fold_update_upt [of "\<lambda>_. 0" n xs] by simp

lemma balls_reset:
  "balls (reset_simulation s) = map reset_ball (take TOTAL_BALLS (balls s)) @ drop TOTAL_BALLS (balls s)"
  by (simp add: reset_simulation_def fold_update_upt)

lemma bins_reset:
  "bins (reset_simulation s) = map (\<lambda>_. 0) (take NUM_BINS (bins s)) @ drop NUM_BINS (bins s)"
  by (simp add: reset_simulation_def fold_zero_upt)

lemma reset_simulation_eq:
  "reset_simulation s =
     s\<lparr>balls := map reset_ball (take TOTAL_BALLS (balls s)) @ drop TOTAL_BALLS (balls s),
       bins := map (\<lambda>_. 0) (take NUM_BINS (bins s)) @ drop NUM_BINS (bins s)\<rparr>"
  by (simp add: reset_simulation_def fold_zero_upt fold_update_upt)

lemma map_take_idem:
  assumes "\<And>x. f (f x) = f x"
  shows "map f (take n (map f (take n xs) @ drop n xs)) @ drop n (map f (take n xs) @ drop n xs)
         = map f (take n xs) @ drop n xs"
proof (cases "n \<le> length xs")
  case True
  then show ?thesis by (simp add: assms min_def)
next
  case False
  then show ?thesis by (simp add: assms)
qed

section \<open>Reset\<close>

text \<open>
  C9.  Resetting twice is resetting once: \<^verbatim>\<open>reset_simulation\<close> applied to a state that
  it has produced changes nothing, neither a particle slot nor a bin nor any other variable,
  whatever state it started from.
\<close>

theorem reset_idempotent:
  "reset_simulation (reset_simulation s) = reset_simulation s"
proof -
  define t where "t = reset_simulation s"
  have "balls (reset_simulation t) = map reset_ball (take TOTAL_BALLS (balls t)) @ drop TOTAL_BALLS (balls t)"
    by (rule balls_reset)
  also have "\<dots> = balls t"
    unfolding t_def balls_reset by (rule map_take_idem) (simp add: reset_ball_def)
  finally have b: "balls (reset_simulation t) = balls t" .
  have "bins (reset_simulation t) = map (\<lambda>_. 0) (take NUM_BINS (bins t)) @ drop NUM_BINS (bins t)"
    by (rule bins_reset)
  also have "\<dots> = bins t"
    unfolding t_def bins_reset by (rule map_take_idem) simp
  finally have c: "bins (reset_simulation t) = bins t" .
  have "reset_simulation t = t\<lparr>balls := balls (reset_simulation t), bins := bins (reset_simulation t)\<rparr>"
    by (simp add: reset_simulation_def)
  then have "reset_simulation t = t"
    by (simp add: b c)
  then show ?thesis
    by (simp add: t_def)
qed

section \<open>Evaluation of the lattice on the board\<close>

text \<open>
  Single-precision expressions on numerals are evaluated by rewriting with the definitions of
  the operations.  The equation of \<open>blen\<close> is only used on numerals, and a \<open>let\<close> is unfolded
  once its bound value has been evaluated, so that no rounding is ever unfolded on a variable.
\<close>

lemma blen_0: "blen 0 = 0"
  by (simp add: blen.simps)

lemma blen_Suc_0: "blen (Suc 0) = 1"
  by (simp add: blen.simps)

lemma blen_numeral: "blen (numeral n) = Suc (blen (numeral n div 2))"
  by (subst blen.simps) simp

lemmas float_eval =
  rnd32_def rnd_mag_def quantize_def ilog2_def rhe_def pow2_def blen_0 blen_Suc_0 blen_numeral
  fadd_def fsub_def fmul_def fdiv_def i2f_def floorf_def f2i_def INT_MAX_def INT_MIN_def Let_def

lemma board_eq:
  "board = \<lparr>display_width = 128, display_height = 64, step_x = 9586981 / 2097152,
      step_y = 9287387 / 4194304,
      pins = map (pin_row 128 (9586981 / 2097152) (9287387 / 4194304)) [0..<15],
      pins_per_row = map (\<lambda>r. int r + 1) [0..<15],
      bin_x = [32, 43, 53, 64, 75, 85, 96]\<rparr>"
  unfolding board_def
  by (simp add: float_eval init_pins_def pin_row_def pin_at_def ROWS_def BASE_PINS_def NUM_BINS_def
      bin_at_def upt_conv_Cons cong: let_weak_cong)

lemma board_fields:
  "display_width board = 128" "display_height board = 64"
  "step_x board = 9586981 / 2097152" "step_y board = 9287387 / 4194304"
  "bin_x board = [32, 43, 53, 64, 75, 85, 96]"
  by (simp_all add: board_eq)

lemma board_pins:
  "pins board =
     map2 (\<lambda>xs y. map (\<lambda>x. \<lparr>pin_x = x, pin_y = y\<rparr>) xs @
                   replicate (15 - length xs) \<lparr>pin_x = 0, pin_y = 0\<rparr>)
       [[64], [61, 66], [59, 64, 68], [57, 61, 66, 70], [54, 59, 64, 68, 73],
        [52, 57, 61, 66, 70, 75], [50, 54, 59, 64, 68, 73, 77],
        [48, 52, 57, 61, 66, 70, 75, 80], [45, 50, 54, 59, 64, 68, 73, 77, 82],
        [43, 48, 52, 57, 61, 66, 70, 75, 80, 84],
        [41, 45, 50, 54, 59, 64, 68, 73, 77, 82, 86],
        [38, 43, 47, 52, 57, 61, 66, 70, 75, 80, 84, 89],
        [36, 41, 45, 50, 54, 59, 64, 68, 73, 77, 82, 86, 91],
        [34, 38, 43, 48, 52, 57, 61, 66, 70, 75, 80, 84, 89, 93],
        [32, 36, 41, 45, 50, 54, 59, 64, 68, 73, 77, 82, 86, 91, 96]]
       [0, 2, 4, 7, 9, 11, 13, 15, 18, 20, 22, 24, 27, 29, 31]"
  unfolding board_eq
  by (simp add: float_eval pin_row_def pin_at_def BASE_PINS_def upt_conv_Cons
      cong: let_weak_cong)

section \<open>Motion update\<close>

lemma update_ball_active:
  "active b \<Longrightarrow>
   active (fst (update_ball g rand (b, k))) = (\<not> i2f (display_height g) \<le> fadd (pos_y b) (3 / 2))"
  by (simp add: update_ball_def Let_def random_dir_def split: prod.splits)

lemma update_ball_pos_y:
  "active b \<Longrightarrow> pos_y (fst (update_ball g rand (b, k))) = fadd (pos_y b) (3 / 2)"
  by (simp add: update_ball_def Let_def random_dir_def split: prod.splits)

lemma update_ball_counted:
  "counted (fst (update_ball g rand (b, k))) = counted b"
  by (simp add: update_ball_def Let_def random_dir_def split: prod.splits)


text \<open>
  C6.  A call of \<^verbatim>\<open>update_ball\<close> on an active particle moves \<open>y\<close> down by 1.5 and leaves
  the particle active exactly when the new \<open>y\<close> is below the display height: the call that
  brings \<open>y\<close> to the display height or beyond, equality included, is the call that
  deactivates it.
\<close>

theorem exit_same_call:
  "active b \<Longrightarrow>
   pos_y (fst (update_ball g rand (b, k))) = fadd (pos_y b) (3 / 2) \<and>
   (active (fst (update_ball g rand (b, k))) \<longleftrightarrow>
      pos_y (fst (update_ball g rand (b, k))) < i2f (display_height g))"
  by (simp add: update_ball_active update_ball_pos_y not_le)

section \<open>Bin accumulation: the scan\<close>

lemma wrap32_id: "- (2 ^ 31) \<le> v \<Longrightarrow> v < 2 ^ 31 \<Longrightarrow> wrap32 v = v"
  by (simp add: wrap32_def)

lemma scan_idx_bound:
  "snd acc < NUM_BINS \<Longrightarrow> set js \<subseteq> {..<NUM_BINS} \<Longrightarrow>
   snd (fold (scan_step bx xi) js acc) < NUM_BINS"
  by (induction js arbitrary: acc) (auto simp add: scan_step_def Let_def)

lemma nearest_bin_bound: "nearest_bin g b < NUM_BINS"
  unfolding nearest_bin_def
  by (rule scan_idx_bound) (auto simp add: NUM_BINS_def)

text \<open>
  C7.  For every particle, whatever its \<open>x\<close>, the scan selects an index below
  \<^verbatim>\<open>NUM_BINS\<close>, and on a bin array of that size settling keeps the size, increments the
  selected element and leaves every other element as it was.
\<close>

theorem settle_in_bounds:
  "nearest_bin g b < NUM_BINS \<and>
   (length bs = NUM_BINS \<longrightarrow>
      length (snd (settle g b bs)) = NUM_BINS \<and>
      snd (settle g b bs) ! nearest_bin g b = wrap32 (bs ! nearest_bin g b + 1) \<and>
      (\<forall>j<NUM_BINS. j \<noteq> nearest_bin g b \<longrightarrow> snd (settle g b bs) ! j = bs ! j))"
  using nearest_bin_bound [of g b] by (simp add: settle_def Let_def)

section \<open>Lattice geometry\<close>

lemma below_15:
  "r < 15 \<Longrightarrow> r \<in> set [0, 1, 2, 3, 4, 5, 6, 7, 8, 9, 10, 11, 12, 13, 14 :: nat]"
  by (simp add: numeral_eq_Suc less_Suc_eq) 

lemma sym_exec:
  "list_all (\<lambda>r. list_all (\<lambda>c.
       127 \<le> pin_x (pins board ! r ! c) + pin_x (pins board ! r ! (r - c)) \<and>
       pin_x (pins board ! r ! c) + pin_x (pins board ! r ! (r - c)) \<le> 128) [0..<Suc r])
     [0, 1, 2, 3, 4, 5, 6, 7, 8, 9, 10, 11, 12, 13, 14]"
  unfolding board_pins by (simp add: upt_conv_Cons)

lemma ideal_exec:
  "list_all (\<lambda>r. list_all (\<lambda>c.
       \<bar>of_int (pin_x (pins board ! r ! c)) - ideal_pin_x 128 r c\<bar> \<le> 1 / 2 \<and>
       \<bar>of_int (pin_y (pins board ! r ! c)) - ideal_pin_y 64 r\<bar> \<le> 1 / 2) [0..<Suc r])
     [0, 1, 2, 3, 4, 5, 6, 7, 8, 9, 10, 11, 12, 13, 14]"
  unfolding board_pins
  by (simp add: upt_conv_Cons ideal_pin_x_def ideal_pin_y_def ideal_shift_x_def ideal_step_x_def
      ideal_step_y_def ROWS_def BASE_PINS_def)

lemma pins_per_row_init: "r < ROWS \<Longrightarrow> pins_per_row (init_pins w n) ! r = int r + 1"
  by (simp add: init_pins_def Let_def)

text \<open>
  C8.  Row \<open>r\<close> of the lattice has \<open>r + 1\<close> pins, on every display; and on the display of the
  board the pins \<open>c\<close> and \<open>r - c\<close> of row \<open>r\<close> have \<open>x\<close> coordinates that add up to the display
  width or to one less, so each row is its own mirror image about the middle of the display to
  within one pixel.
\<close>

theorem lattice_rows_symmetric:
  assumes "r < ROWS" and "c \<le> r"
  shows "pins_per_row (init_pins w n) ! r = int r + 1 \<and>
         display_width board - 1 \<le> pin_x (pins board ! r ! c) + pin_x (pins board ! r ! (r - c)) \<and>
         pin_x (pins board ! r ! c) + pin_x (pins board ! r ! (r - c)) \<le> display_width board"
proof -
  have r: "r \<in> set [0, 1, 2, 3, 4, 5, 6, 7, 8, 9, 10, 11, 12, 13, 14 :: nat]"
    using assms(1) by (intro below_15) (simp add: ROWS_def BASE_PINS_def)
  have c: "c \<in> set [0..<Suc r]"
    using assms(2) by auto
  have "127 \<le> pin_x (pins board ! r ! c) + pin_x (pins board ! r ! (r - c)) \<and>
        pin_x (pins board ! r ! c) + pin_x (pins board ! r ! (r - c)) \<le> 128"
    using sym_exec r c unfolding list_all_iff by blast
  then show ?thesis
    using assms(1) by (simp add: pins_per_row_init board_fields)
qed

text \<open>
  C3, as the code has it.  On the display of the board the steps are the single-precision
  values nearest to \<open>(display_width / 2) / (BASE_PINS - 1)\<close> and to
  \<open>(display_height div 2 - 1) / (ROWS - 1)\<close>, and every pin is at a pixel nearest to
  \<open>((display_width - 1) - r * step_x) / 2 + c * step_x\<close> horizontally and to \<open>r * step_y\<close>
  vertically, the steps taken exactly.
\<close>

theorem lattice_formulas:
  assumes "r < ROWS" and "c \<le> r"
  shows "step_x board = rnd32 (ideal_step_x (display_width board)) \<and>
         step_y board = rnd32 (ideal_step_y (display_height board)) \<and>
         \<bar>of_int (pin_x (pins board ! r ! c)) - ideal_pin_x (display_width board) r c\<bar> \<le> 1 / 2 \<and>
         \<bar>of_int (pin_y (pins board ! r ! c)) - ideal_pin_y (display_height board) r\<bar> \<le> 1 / 2"
proof -
  have r: "r \<in> set [0, 1, 2, 3, 4, 5, 6, 7, 8, 9, 10, 11, 12, 13, 14 :: nat]"
    using assms(1) by (intro below_15) (simp add: ROWS_def BASE_PINS_def)
  have c: "c \<in> set [0..<Suc r]"
    using assms(2) by auto
  have p: "\<bar>of_int (pin_x (pins board ! r ! c)) - ideal_pin_x 128 r c\<bar> \<le> 1 / 2 \<and>
       \<bar>of_int (pin_y (pins board ! r ! c)) - ideal_pin_y 64 r\<bar> \<le> 1 / 2"
    using ideal_exec r c unfolding list_all_iff by blast
  have sx: "rnd32 (ideal_step_x 128) = 9586981 / 2097152"
    by (simp add: ideal_step_x_def BASE_PINS_def float_eval)
  have sy: "rnd32 (ideal_step_y 64) = 9287387 / 4194304"
    by (simp add: ideal_step_y_def ROWS_def BASE_PINS_def float_eval)
  show ?thesis
    using p by (simp add: board_fields sx sy)
qed

text \<open>
  Pin 2 of row 11 sits at 47, half a pixel from its exact position 47.5.
\<close>

theorem lattice_formulas_witness:
  "(11::nat) < ROWS \<and> (2::nat) \<le> 11 \<and> pin_x (pins board ! 11 ! 2) = 47 \<and>
   ideal_pin_x (display_width board) 11 2 = 95 / 2 \<and>
   \<bar>of_int (pin_y (pins board ! 11 ! 2)) - ideal_pin_y (display_height board) 11\<bar> \<le> 1 / 2"
proof -
  have h: "(11::nat) < ROWS" "(2::nat) \<le> 11"
    by (simp_all add: ROWS_def BASE_PINS_def)
  have v: "ideal_pin_x 128 11 2 = 95 / 2"
    by (simp add: ideal_pin_x_def ideal_shift_x_def ideal_step_x_def BASE_PINS_def)
  have p: "pin_x (pins board ! 11 ! 2) = 47"
    unfolding board_pins by simp
  show ?thesis
    using h lattice_formulas [OF h] v p by (simp add: board_fields)
qed

text \<open>
  C3 as stated fails on the board: with a vertical step of half the display height over
  \<open>rows - 1\<close> the last row would be at \<open>y = 32\<close>, and it is at 31; with an offset of
  \<open>(display_width - (count - 1) * step_x) / 2\<close> the first pin of row 1 would be at
  \<open>61.71\<close>, and it is at 61.
\<close>

theorem spec_lattice_counterexample:
  "\<not> \<bar>of_int (pin_y (pins board ! 14 ! 0)) - spec_pin_y (display_height board) 14\<bar> \<le> 1 / 2 \<and>
   \<not> \<bar>of_int (pin_x (pins board ! 1 ! 0)) - spec_pin_x (display_width board) 1 0\<bar> \<le> 1 / 2"
  unfolding board_pins
  by (simp add: spec_pin_y_def spec_step_y_def spec_pin_x_def spec_shift_x_def ideal_step_x_def
      ROWS_def BASE_PINS_def board_fields)

section \<open>Fall of a particle from the apex\<close>

text \<open>
  The row that \<^verbatim>\<open>update_ball\<close> computes depends on \<open>y\<close> only, and \<open>y\<close> does not depend on the
  random numbers: two falls that agree on \<open>y\<close>, \<open>last_row\<close> and \<open>active\<close> are deflected in the
  same calls and end after the same number of calls.
\<close>

lemma update_ball_sync:
  assumes "pos_y b = pos_y b'" and "last_row b = last_row b'" and "active b = active b'"
  shows "pos_y (fst (update_ball g rand (b, k))) = pos_y (fst (update_ball g rand' (b', k'))) \<and>
         last_row (fst (update_ball g rand (b, k))) = last_row (fst (update_ball g rand' (b', k'))) \<and>
         active (fst (update_ball g rand (b, k))) = active (fst (update_ball g rand' (b', k'))) \<and>
         (snd (update_ball g rand (b, k)) = k \<longleftrightarrow> snd (update_ball g rand' (b', k')) = k')"
  using assms by (simp add: update_ball_def Let_def random_dir_def split: prod.splits)

lemma advance_shape:
  assumes "shape st = shape st'"
  shows "shape (advance g rand st) = shape (advance g rand' st')"
proof -
  obtain b k c rs where st: "st = ((b, k), c, rs)"
    by (metis prod.collapse)
  obtain b' k' c' rs' where st': "st' = ((b', k'), c', rs')"
    by (metis prod.collapse)
  have e: "pos_y b = pos_y b'" "last_row b = last_row b'" "active b = active b'" "c = c'" "rs = rs'"
    using assms by (simp_all add: shape_def st st')
  show ?thesis
    using update_ball_sync [OF e(1) e(2) e(3), of g rand k rand' k'] e(4) e(5)
    by (simp add: shape_def advance_def st st' Let_def)
qed

lemma fall_sync:
  assumes "shape st = shape st'"
  shows "map_option snd (fall n g rand st) = map_option snd (fall n g rand' st')"
  using assms
proof (induction n arbitrary: st st')
  case 0
  then show ?case by (auto simp add: shape_def)
next
  case (Suc n)
  have a: "active (fst (fst st)) = active (fst (fst st'))" and s: "snd st = snd st'"
    using Suc.prems by (simp_all add: shape_def)
  show ?case
    using Suc.IH [OF advance_shape [OF Suc.prems, of g rand rand']] a s by simp
qed

lemma fall_numeral:
  "fall (numeral n) g rand st =
     (if active (fst (fst st)) then fall (pred_numeral n) g rand (advance g rand st)
      else Some (fst (fst st), snd st))"
  by (simp add: numeral_eq_Suc)

lemma apex_x: "pin_x (pins board ! 0 ! 0) = 64"
  unfolding board_pins by simp

lemma fall_right:
  "fall 43 board always_right ((init_ball board zero_ball, 0), 0, []) =
     Some (\<lparr>pos_x = 4194303 / 32768, pos_y = 129 / 2, active = False, counted = False,
             last_row = 14\<rparr>, 43, [1, 2, 3, 4, 5, 6, 7, 8, 9, 10, 11, 12, 13, 14])"
  by (simp add: fall_numeral advance_def update_ball_def row_of_def random_dir_def always_right_def
      init_ball_def zero_ball_def board_fields apex_x ROWS_def BASE_PINS_def float_eval
      cong: let_weak_cong prod.case_cong_weak)

text \<open>
  C2, as the code has it.  On the display of the board a particle released at the apex
  leaves the board after 43 updates, whatever the random numbers, and is deflected once in
  each of the rows 1 to 14 and never in row 0: 14 deflections.  With every deflection to the
  right its final \<open>x\<close> is the apex \<open>x\<close> plus 14 horizontal steps, to within a thousandth of a
  pixel.
\<close>

theorem apex_fall_deflections:
  "map_option snd (fall 43 board rand ((init_ball board b0, k), 0, [])) =
     Some (43, [1, 2, 3, 4, 5, 6, 7, 8, 9, 10, 11, 12, 13, 14]) \<and>
   map_option (\<lambda>r. \<bar>pos_x (fst r) - (of_int (pin_x (pins board ! 0 ! 0)) + 14 * step_x board)\<bar> < 1 / 1000)
     (fall 43 board always_right ((init_ball board zero_ball, 0), 0, [])) = Some True"
proof -
  have "shape ((init_ball board b0, k), 0, []) = shape ((init_ball board zero_ball, 0), 0, [])"
    by (simp add: shape_def init_ball_def)
  then have "map_option snd (fall 43 board rand ((init_ball board b0, k), 0, [])) =
      map_option snd (fall 43 board always_right ((init_ball board zero_ball, 0), 0, []))"
    by (rule fall_sync)
  then show ?thesis
    by (simp add: fall_right apex_x board_fields)
qed

text \<open>
  C2 as stated fails on the board: with every deflection to the right the particle is
  deflected in 14 rows, not in all 15, and ends more than four pixels away from the apex
  \<open>x\<close> plus 15 steps.
\<close>

theorem fifteen_deflections_counterexample:
  "fall 43 board always_right ((init_ball board zero_ball, 0), 0, []) =
     Some (\<lparr>pos_x = 4194303 / 32768, pos_y = 129 / 2, active = False, counted = False,
             last_row = 14\<rparr>, 43, [1, 2, 3, 4, 5, 6, 7, 8, 9, 10, 11, 12, 13, 14]) \<and>
   ROWS = 15 \<and>
   \<not> \<bar>4194303 / 32768 - (of_int (pin_x (pins board ! 0 ! 0)) + of_nat ROWS * step_x board)\<bar> \<le> 4"
  by (simp add: fall_right apex_x board_fields ROWS_def BASE_PINS_def)

section \<open>The invariant and the end of a run\<close>

text \<open>
  Every operation of a pass keeps \<open>core_inv\<close>: the reset, the release of a particle, and
  each turn of the loop over the slots, which either updates a falling particle or counts
  an idle one in a bin, never both.
\<close>

lemma reset_fields:
  "ball_count (reset_simulation s) = ball_count s"
  "running (reset_simulation s) = running s"
  "last_rel (reset_simulation s) = last_rel s"
  "last_btn_a (reset_simulation s) = last_btn_a s"
  "last_btn_b (reset_simulation s) = last_btn_b s"
  "rand_calls (reset_simulation s) = rand_calls s"
  by (simp_all add: reset_simulation_def)

lemma reset_arrays:
  assumes "length (balls s) = TOTAL_BALLS" and "length (bins s) = NUM_BINS"
  shows "balls (reset_simulation s) = map reset_ball (balls s)"
    and "bins (reset_simulation s) = map (\<lambda>_. 0) (bins s)"
  using assms by (simp_all add: balls_reset bins_reset)

lemma reset_core_inv:
  assumes "length (balls s) = TOTAL_BALLS" and "length (bins s) = NUM_BINS"
    and "0 \<le> ball_count s" and "ball_count s \<le> int TOTAL_BALLS"
  shows "core_inv (reset_simulation s)"
proof -
  have idle: "list_all (\<lambda>b. \<not> active b \<and> \<not> counted b) (map reset_ball (balls s))"
    by (simp add: list_all_iff reset_ball_def)
  then have d: "list_all (\<lambda>b. \<not> active b \<and> \<not> counted b) (drop n (map reset_ball (balls s)))" for n
    unfolding list_all_iff by (meson in_set_dropD)
  have f: "filter counted (map reset_ball (balls s)) = []"
    by (simp add: filter_empty_conv reset_ball_def)
  have z: "sum_list (map (\<lambda>_. 0::int) (bins s)) = 0"
    by simp
  have a: "list_all (\<lambda>b. \<not> (active b \<and> counted b)) (map reset_ball (balls s))"
    using idle by (simp add: list_all_iff)
  show ?thesis
    unfolding core_inv_def reset_fields reset_arrays [OF assms(1) assms(2)]
    using assms d f z a by (simp add: list_all_iff)
qed

lemma poll_buttons_inv:
  assumes "sim_inv s"
  shows "sim_inv (poll_buttons inp s)"
proof -
  have c: "core_inv s"
    using assms by (simp add: sim_inv_def)
  then have len: "length (balls s) = TOTAL_BALLS" "length (bins s) = NUM_BINS"
    "0 \<le> ball_count s" "ball_count s \<le> int TOTAL_BALLS"
    by (simp_all add: core_inv_def)
  define s1 where "s1 = handle_start inp s"
  have s1: "sim_inv s1"
  proof (cases "btn_a inp \<and> \<not> last_btn_a s \<and> \<not> running s")
    case True
    have "core_inv (reset_simulation (s\<lparr>running := True, ball_count := 0\<rparr>))"
      by (rule reset_core_inv) (simp_all add: len)
    then show ?thesis
      using True by (simp add: s1_def handle_start_def sim_inv_def core_inv_def reset_fields TOTAL_BALLS_def)
  next
    case False
    then show ?thesis
      using assms by (auto simp add: s1_def handle_start_def)
  qed
  then have len1: "length (balls s1) = TOTAL_BALLS" "length (bins s1) = NUM_BINS"
    "0 \<le> ball_count s1" "ball_count s1 \<le> int TOTAL_BALLS"
    by (simp_all add: sim_inv_def core_inv_def)
  have s2: "sim_inv (handle_stop inp s1)"
  proof (cases "btn_b inp \<and> \<not> last_btn_b s1")
    case True
    have "core_inv (reset_simulation (s1\<lparr>running := False\<rparr>))"
      by (rule reset_core_inv) (simp_all add: len1)
    then show ?thesis
      using True by (simp add: handle_stop_def sim_inv_def reset_fields)
  next
    case False
    then show ?thesis
      using s1 by (auto simp add: handle_stop_def)
  qed
  then show ?thesis
    by (simp add: poll_buttons_def s1_def sim_inv_def core_inv_def)
qed

lemma spawn_fields:
  "running (spawn g inp s) = running s"
  "bins (spawn g inp s) = bins s"
  "length (balls (spawn g inp s)) = length (balls s)"
  by (simp_all add: spawn_def)

lemma spawn_core_inv:
  assumes "core_inv s"
  shows "core_inv (spawn g inp s)"
proof (cases "ball_count s < int TOTAL_BALLS \<and> RELEASE_DELAY \<le> t_check inp - last_rel s")
  case False
  then show ?thesis
    using assms by (auto simp add: spawn_def)
next
  case True
  define i where "i = nat (ball_count s)"
  have i: "i < length (balls s)" "nat (ball_count s + 1) = Suc i"
    using True assms by (simp_all add: i_def core_inv_def nat_less_iff nat_add_distrib)
  have old: "drop i (balls s) = balls s ! i # drop (Suc i) (balls s)"
    using i(1) by (simp add: Cons_nth_drop_Suc)
  have idle: "list_all (\<lambda>b. \<not> active b \<and> \<not> counted b) (drop i (balls s))"
    using assms by (simp add: core_inv_def i_def)
  then have o: "\<not> counted (balls s ! i)"
    and rest: "list_all (\<lambda>b. \<not> active b \<and> \<not> counted b) (drop (Suc i) (balls s))"
    by (simp_all add: old)
  have n: "\<not> counted (init_ball g (balls s ! i))"
    by (simp add: init_ball_def)
  have f: "length (filter counted ((balls s)[i := init_ball g (balls s ! i)])) = length (filter counted (balls s))"
    using i(1) o n by (intro filter_update_same) simp_all
  have a: "list_all (\<lambda>b. \<not> (active b \<and> counted b)) ((balls s)[i := init_ball g (balls s ! i)])"
    using assms n by (intro list_all_update) (simp_all add: core_inv_def)
  have sp: "spawn g inp s = s\<lparr>balls := (balls s)[i := init_ball g (balls s ! i)],
      ball_count := ball_count s + 1, last_rel := t_spawn inp\<rparr>"
    using True by (simp add: spawn_def i_def)
  show ?thesis
    unfolding sp core_inv_def using assms True i rest f a
    by (simp add: core_inv_def drop_update_cancel)
qed

lemma ball_step_fields:
  "running (ball_step g rand i s) = running s"
  "ball_count (ball_step g rand i s) = ball_count s"
  "length (balls (ball_step g rand i s)) = length (balls s)"
  by (simp_all add: ball_step_def Let_def split: prod.splits)

lemma ball_step_other:
  "j \<noteq> i \<Longrightarrow> balls (ball_step g rand i s) ! j = balls s ! j"
  by (simp add: ball_step_def Let_def split: prod.splits)

lemma ball_step_active:
  assumes "i < length (balls s)" and "active (balls s ! i)"
  shows "balls (ball_step g rand i s) ! i = fst (update_ball g rand (balls s ! i, rand_calls s))"
  using assms by (simp add: ball_step_def Let_def split: prod.splits)

lemma ball_step_core_inv:
  assumes "core_inv s" and "i < nat (ball_count s)"
  shows "core_inv (ball_step g rand i s)"
proof -
  define b where "b = balls s ! i"
  have len: "length (balls s) = TOTAL_BALLS" "length (bins s) = NUM_BINS"
    and bc: "0 \<le> ball_count s" "ball_count s \<le> int TOTAL_BALLS"
    and idle: "list_all (\<lambda>b. \<not> active b \<and> \<not> counted b) (drop (nat (ball_count s)) (balls s))"
    and excl: "list_all (\<lambda>b. \<not> (active b \<and> counted b)) (balls s)"
    and pos: "list_all (\<lambda>v. 0 \<le> v) (bins s)"
    and sum: "sum_list (bins s) = int (length (filter counted (balls s)))"
    using assms(1) by (simp_all add: core_inv_def)
  have i: "i < length (balls s)"
    using assms(2) bc len by simp
  have bx: "\<not> (active b \<and> counted b)"
    using excl i unfolding b_def list_all_iff by simp
  show ?thesis
  proof (cases "active b")
    case True
    define b' where "b' = fst (update_ball g rand (b, rand_calls s))"
    define k' where "k' = snd (update_ball g rand (b, rand_calls s))"
    have st: "ball_step g rand i s = s\<lparr>balls := (balls s)[i := b'], rand_calls := k'\<rparr>"
      using True by (simp add: ball_step_def b_def b'_def k'_def split: prod.splits)
    have c: "\<not> counted b'"
      using True bx by (simp add: b'_def update_ball_counted)
    have f: "length (filter counted ((balls s)[i := b'])) = length (filter counted (balls s))"
      using i c True bx by (intro filter_update_same) (simp_all add: b_def)
    have a: "list_all (\<lambda>b. \<not> (active b \<and> counted b)) ((balls s)[i := b'])"
      using excl c by (intro list_all_update) simp_all
    show ?thesis
      unfolding st core_inv_def using len bc idle pos sum f a assms(2)
      by (simp add: drop_update_cancel)
  next
    case False
    show ?thesis
    proof (cases "counted b")
      case True
      then show ?thesis
        using False assms(1) by (simp add: ball_step_def b_def)
    next
      case nc: False
      define idx where "idx = nearest_bin g b"
      have idx: "idx < length (bins s)"
        using nearest_bin_bound [of g b] len by (simp add: idx_def)
      have st: "ball_step g rand i s =
          s\<lparr>balls := (balls s)[i := b\<lparr>counted := True\<rparr>],
            bins := (bins s)[idx := wrap32 (bins s ! idx + 1)]\<rparr>"
        using False nc by (simp add: ball_step_def b_def settle_def idx_def Let_def)
      have f: "length (filter counted ((balls s)[i := b\<lparr>counted := True\<rparr>])) = Suc (length (filter counted (balls s)))"
        using i nc by (intro filter_update_new) (simp_all add: b_def)
      have a: "list_all (\<lambda>b. \<not> (active b \<and> counted b)) ((balls s)[i := b\<lparr>counted := True\<rparr>])"
        using excl False by (intro list_all_update) simp_all
      have lo: "0 \<le> bins s ! idx"
        using pos idx unfolding list_all_iff by simp
      have "bins s ! idx \<le> sum_list (bins s)"
        using pos idx by (rule nth_le_sum_list)
      also have "\<dots> \<le> int (length (balls s))"
        unfolding sum by simp
      finally have hi: "bins s ! idx \<le> 100"
        using len by (simp add: TOTAL_BALLS_def)
      have w: "wrap32 (bins s ! idx + 1) = bins s ! idx + 1"
        using lo hi by (intro wrap32_id) simp_all
      have p: "list_all (\<lambda>v. 0 \<le> v) ((bins s)[idx := bins s ! idx + 1])"
        using pos lo by (intro list_all_update) simp_all
      have sm: "sum_list ((bins s)[idx := bins s ! idx + 1]) = sum_list (bins s) + 1"
        using idx by (simp add: sum_list_update_int)
      show ?thesis
        unfolding st core_inv_def w using len bc idle sum f a p sm assms(2)
        by (simp add: drop_update_cancel)
    qed
  qed
qed

lemma fold_ball_step:
  assumes "core_inv s" and "n \<le> nat (ball_count s)"
  shows "core_inv (fold (ball_step g rand) [0..<n] s) \<and>
         ball_count (fold (ball_step g rand) [0..<n] s) = ball_count s \<and>
         running (fold (ball_step g rand) [0..<n] s) = running s"
  using assms(2)
proof (induction n)
  case 0
  show ?case using assms(1) by simp
next
  case (Suc n)
  then have IH: "core_inv (fold (ball_step g rand) [0..<n] s)"
    "ball_count (fold (ball_step g rand) [0..<n] s) = ball_count s"
    "running (fold (ball_step g rand) [0..<n] s) = running s"
    by simp_all
  have "core_inv (ball_step g rand n (fold (ball_step g rand) [0..<n] s))"
    using IH(1) Suc.prems by (intro ball_step_core_inv) (simp_all add: IH(2))
  then show ?case
    by (simp add: ball_step_fields IH)
qed

lemma fold_length:
  "length (balls (fold (ball_step g rand) [0..<n] s)) = length (balls s)"
  by (induction n) (simp_all add: ball_step_fields)

lemma fold_untouched:
  "n \<le> j \<Longrightarrow> balls (fold (ball_step g rand) [0..<n] s) ! j = balls s ! j"
  by (induction n) (simp_all add: ball_step_other)

lemma fold_active_ball:
  assumes "i < n" and "n \<le> length (balls s)"
    and "active (balls s ! i)" and "\<not> counted (balls s ! i)"
  shows "\<not> counted (balls (fold (ball_step g rand) [0..<n] s) ! i) \<and>
         (active (balls (fold (ball_step g rand) [0..<n] s) ! i) \<longleftrightarrow>
            \<not> i2f (display_height g) \<le> fadd (pos_y (balls s ! i)) (3 / 2))"
  using assms(1) assms(2)
proof (induction n)
  case 0
  then show ?case by simp
next
  case (Suc n)
  define t where "t = fold (ball_step g rand) [0..<n] s"
  have fin: "fold (ball_step g rand) [0..<Suc n] s = ball_step g rand n t"
    by (simp add: t_def)
  show ?case
  proof (cases "i = n")
    case True
    have same: "balls t ! n = balls s ! n"
      unfolding t_def by (rule fold_untouched) simp
    have len: "n < length (balls t)"
      unfolding t_def fold_length using Suc.prems by simp
    have act: "active (balls t ! n)"
      using assms(3) True same by simp
    have "balls (ball_step g rand n t) ! n = fst (update_ball g rand (balls t ! n, rand_calls t))"
      using len act by (rule ball_step_active)
    then show ?thesis
      unfolding fin using True same assms(3) assms(4)
      by (simp add: update_ball_counted update_ball_active)
  next
    case False
    then have "i < n"
      using Suc.prems by simp
    then show ?thesis
      unfolding fin using Suc False by (simp add: ball_step_other t_def)
  qed
qed

lemma finish_check_fields:
  "bins (finish_check s) = bins s"
  "balls (finish_check s) = balls s"
  "ball_count (finish_check s) = ball_count s"
  by (simp_all add: finish_check_def)

text \<open>
  C1.  The sum of the bins at natural completion.  From a state that satisfies the loop
  invariant, on a display at least two pixels high, a pass that begins in Running and ends
  with \<open>running\<close> false leaves the sum of the bins below \<^verbatim>\<open>TOTAL_BALLS\<close>: a particle that
  \<^verbatim>\<open>update_ball\<close> deactivates in that pass takes the first branch of the loop body, is not
  counted in the pass, and no later pass counts it.
\<close>

theorem last_ball_never_binned:
  assumes inv: "sim_inv s"
    and tall: "\<not> i2f (display_height g) \<le> fadd 0 (3 / 2)"
    and run: "running (poll_buttons inp s)"
    and stop: "\<not> running (main_loop_body g rand inp s)"
  shows "sum_list (bins (main_loop_body g rand inp s)) < int TOTAL_BALLS"
proof -
  define s1 where "s1 = poll_buttons inp s"
  define s2 where "s2 = spawn g inp s1"
  define n where "n = nat (ball_count s2)"
  define s3 where "s3 = fold (ball_step g rand) [0..<n] s2"
  have body: "main_loop_body g rand inp s = finish_check s3"
    using run by (simp add: main_loop_body_def Let_def s1_def s2_def s3_def n_def)
  have i1: "sim_inv s1"
    unfolding s1_def using inv by (rule poll_buttons_inv)
  then have c1: "core_inv s1"
    by (simp add: sim_inv_def)
  have c2: "core_inv s2"
    unfolding s2_def using c1 by (rule spawn_core_inv)
  have f3: "core_inv s3" "ball_count s3 = ball_count s2" "running s3 = running s2"
    using fold_ball_step [OF c2, of n g rand] by (simp_all add: s3_def n_def)
  have r3: "running s3"
    using run by (simp add: f3 s2_def spawn_fields s1_def)
  have len2: "length (balls s2) = TOTAL_BALLS" and bc2: "0 \<le> ball_count s2" "ball_count s2 \<le> int TOTAL_BALLS"
    using c2 by (simp_all add: core_inv_def)
  have len3: "length (balls s3) = TOTAL_BALLS"
    using f3(1) by (simp add: core_inv_def)
  have fin: "int TOTAL_BALLS \<le> ball_count s3" "\<not> list_ex active (balls s3)"
    using stop r3 len3 unfolding body finish_check_def by (auto split: if_splits)
  have full: "n = TOTAL_BALLS"
    using fin(1) bc2 by (simp add: n_def f3(2))
  have ex: "\<exists>i<TOTAL_BALLS. active (balls s2 ! i) \<and> \<not> counted (balls s2 ! i) \<and>
       i2f (display_height g) \<le> fadd (pos_y (balls s2 ! i)) (3 / 2)"
  proof -
    have gone: "\<not> active (balls s3 ! i)" if "i < TOTAL_BALLS" for i
    proof -
      have "balls s3 ! i \<in> set (balls s3)"
        using that len3 by simp
      then show ?thesis
        using fin(2) by (auto simp add: list_ex_iff)
    qed
    have key: "\<And>i. i < TOTAL_BALLS \<Longrightarrow> active (balls s2 ! i) \<Longrightarrow>
        \<not> counted (balls s2 ! i) \<and> i2f (display_height g) \<le> fadd (pos_y (balls s2 ! i)) (3 / 2)"
    proof -
      fix i assume i: "i < TOTAL_BALLS" and a: "active (balls s2 ! i)"
      have nc: "\<not> counted (balls s2 ! i)"
        using c2 i a len2 by (auto simp add: core_inv_def list_all_iff)
      have "active (balls s3 ! i) \<longleftrightarrow> \<not> i2f (display_height g) \<le> fadd (pos_y (balls s2 ! i)) (3 / 2)"
        unfolding s3_def using fold_active_ball [of i n s2 g rand] i a nc len2 full by simp
      then show "\<not> counted (balls s2 ! i) \<and> i2f (display_height g) \<le> fadd (pos_y (balls s2 ! i)) (3 / 2)"
        using gone [OF i] nc by simp
    qed
    show ?thesis
    proof (cases "ball_count s1 < int TOTAL_BALLS \<and> RELEASE_DELAY \<le> t_check inp - last_rel s1")
      case True
      define j where "j = nat (ball_count s1)"
      have j: "j < TOTAL_BALLS"
        using True c1 by (simp add: j_def core_inv_def nat_less_iff)
      have lenj: "j < length (balls s1)"
        using j c1 by (simp add: core_inv_def)
      have new: "balls s2 ! j = init_ball g (balls s1 ! j)"
        using True lenj by (simp add: s2_def spawn_def j_def)
      have "active (balls s2 ! j)"
        by (simp add: new init_ball_def)
      from key [OF j this] have "i2f (display_height g) \<le> fadd (pos_y (balls s2 ! j)) (3 / 2)"
        by simp
      then have False
        using tall by (simp add: new init_ball_def)
      then show ?thesis ..
    next
      case False
      then have same: "s2 = s1"
        by (auto simp add: s2_def spawn_def)
      have "running s1"
        using run by (simp add: s1_def)
      moreover have "int TOTAL_BALLS \<le> ball_count s1"
        using fin(1) by (simp add: f3(2) same)
      ultimately have "list_ex active (balls s1)"
        using i1 by (simp add: sim_inv_def)
      then obtain i where i: "i < TOTAL_BALLS" "active (balls s1 ! i)"
        using c1 by (auto simp add: list_ex_iff in_set_conv_nth core_inv_def)
      then show ?thesis
        using key [of i] by (auto simp add: same)
    qed
  qed
  then obtain i where i: "i < TOTAL_BALLS" "active (balls s2 ! i)" "\<not> counted (balls s2 ! i)"
    by blast
  have "\<not> counted (balls s3 ! i)"
    unfolding s3_def using fold_active_ball [of i n s2 g rand] i len2 full by simp
  moreover have "balls s3 ! i \<in> set (balls s3)"
    using i(1) len3 by simp
  ultimately have "length (filter counted (balls s3)) < length (balls s3)"
    by (intro length_filter_less) auto
  then have "sum_list (bins s3) < int TOTAL_BALLS"
    using f3(1) len3 by (simp add: core_inv_def)
  then show ?thesis
    by (simp add: body finish_check_fields)
qed

text \<open>The invariant holds when the loop is entered and after every pass.\<close>

lemma main_loop_body_inv:
  assumes "sim_inv s"
  shows "sim_inv (main_loop_body g rand inp s)"
proof -
  define s1 where "s1 = poll_buttons inp s"
  have i1: "sim_inv s1"
    unfolding s1_def using assms by (rule poll_buttons_inv)
  show ?thesis
  proof (cases "running s1")
    case False
    then show ?thesis
      using i1 by (simp add: main_loop_body_def Let_def s1_def)
  next
    case True
    define s2 where "s2 = spawn g inp s1"
    define s3 where "s3 = fold (ball_step g rand) [0..<nat (ball_count s2)] s2"
    have body: "main_loop_body g rand inp s = finish_check s3"
      using True by (simp add: main_loop_body_def Let_def s1_def s2_def s3_def)
    have c2: "core_inv s2"
      unfolding s2_def using i1 by (intro spawn_core_inv) (simp add: sim_inv_def)
    have c3: "core_inv s3"
      using fold_ball_step [OF c2, of "nat (ball_count s2)" g rand] by (simp add: s3_def)
    then have len3: "length (balls s3) = TOTAL_BALLS"
      by (simp add: core_inv_def)
    have "core_inv (finish_check s3)"
      using c3 by (simp add: core_inv_def finish_check_def)
    moreover have "running (finish_check s3) \<and> int TOTAL_BALLS \<le> ball_count (finish_check s3) \<Longrightarrow>
        list_ex active (balls (finish_check s3))"
      using len3 by (auto simp add: finish_check_def split: if_splits)
    ultimately show ?thesis
      unfolding body sim_inv_def by auto
  qed
qed

lemma initial_state_inv: "sim_inv (initial_state t0)"
proof -
  have "core_inv (initial_state t0)"
    unfolding initial_state_def by (rule reset_core_inv) simp_all
  then show ?thesis
    by (simp add: sim_inv_def initial_state_def reset_fields)
qed

section \<open>Buttons, and the sample runs\<close>

lemma fold_ball_step_fields:
  "ball_count (fold (ball_step g rand) xs s) = ball_count s"
  "running (fold (ball_step g rand) xs s) = running s"
  "last_btn_a (fold (ball_step g rand) xs s) = last_btn_a s"
  "last_btn_b (fold (ball_step g rand) xs s) = last_btn_b s"
  by (induction xs arbitrary: s) (simp_all add: ball_step_def Let_def split: prod.splits)

lemma main_loop_body_buttons:
  "last_btn_a (main_loop_body g rand inp s) = btn_a inp"
  "last_btn_b (main_loop_body g rand inp s) = btn_b inp"
  by (simp_all add: main_loop_body_def Let_def finish_check_def fold_ball_step_fields spawn_def
      poll_buttons_def)

lemma main_loop_body_ball_count:
  "ball_count (main_loop_body g rand inp s) =
     (if running (poll_buttons inp s) then ball_count (spawn g inp (poll_buttons inp s))
      else ball_count (poll_buttons inp s))"
  by (simp add: main_loop_body_def Let_def finish_check_def fold_ball_step_fields)

lemma main_loop_body_running:
  "ball_count (spawn g inp (poll_buttons inp s)) < int TOTAL_BALLS \<Longrightarrow>
   running (main_loop_body g rand inp s) = running (poll_buttons inp s)"
  by (simp add: main_loop_body_def Let_def finish_check_def fold_ball_step_fields spawn_fields)

lemma main_loop_body_idle:
  "\<not> running (poll_buttons inp s) \<Longrightarrow> main_loop_body g rand inp s = poll_buttons inp s"
  by (simp add: main_loop_body_def Let_def)

lemma initial_fields:
  "running (initial_state t0) = False" "ball_count (initial_state t0) = 0"
  "last_btn_a (initial_state t0) = False" "last_btn_b (initial_state t0) = False"
  "last_rel (initial_state t0) = t0"
  by (simp_all add: initial_state_def reset_fields)

lemma started_fields:
  "running started" "ball_count started = 1" "last_btn_a started" "\<not> last_btn_b started"
  "length (balls started) = TOTAL_BALLS" "length (bins started) = NUM_BINS"
proof -
  have p: "running (poll_buttons press_a (initial_state 0))"
    "ball_count (poll_buttons press_a (initial_state 0)) = 0"
    "last_rel (poll_buttons press_a (initial_state 0)) = 0"
    by (simp_all add: poll_buttons_def handle_start_def handle_stop_def press_a_def initial_fields
        reset_fields)
  have c: "ball_count (spawn board press_a (poll_buttons press_a (initial_state 0))) = 1"
    by (simp add: spawn_def p TOTAL_BALLS_def RELEASE_DELAY_def) (simp add: press_a_def)
  show "running started"
    unfolding started_def using c p(1) by (simp add: main_loop_body_running TOTAL_BALLS_def)
  show "ball_count started = 1"
    unfolding started_def using c p(1) by (simp add: main_loop_body_ball_count)
  show "last_btn_a started" "\<not> last_btn_b started"
    unfolding started_def by (simp_all add: main_loop_body_buttons press_a_def)
  have "sim_inv started"
    unfolding started_def by (intro main_loop_body_inv initial_state_inv)
  then show "length (balls started) = TOTAL_BALLS" "length (bins started) = NUM_BINS"
    by (simp_all add: sim_inv_def core_inv_def)
qed

text \<open>
  C10.  While \<open>running\<close> holds, the start branch of the button handling leaves the state
  as it is, the start button pressed or not; and when no reset edge arrives in the same pass,
  the whole button handling changes only the two remembered button levels, so \<open>running\<close>,
  \<open>ball_count\<close>, every slot and every bin are as before.
\<close>

theorem start_ignored_while_running:
  assumes "running s"
  shows "handle_start inp s = s \<and>
         (\<not> (btn_b inp \<and> \<not> last_btn_b s) \<longrightarrow>
            poll_buttons inp s = s\<lparr>last_btn_a := btn_a inp, last_btn_b := btn_b inp\<rparr>)"
  using assms by (auto simp add: handle_start_def poll_buttons_def handle_stop_def)

lemma spawn_count_le: "ball_count (spawn g inp s) \<le> ball_count s + 1"
  by (simp add: spawn_def)

lemma released_fields:
  "running released" "\<not> last_btn_a released" "\<not> last_btn_b released"
proof -
  have p: "poll_buttons no_buttons started = started\<lparr>last_btn_a := False, last_btn_b := False\<rparr>"
    by (simp add: poll_buttons_def handle_start_def handle_stop_def no_buttons_def started_fields)
  have "ball_count (spawn board no_buttons (poll_buttons no_buttons started)) \<le> 2"
    using spawn_count_le [of board no_buttons "poll_buttons no_buttons started"]
    by (simp add: p started_fields)
  then have "ball_count (spawn board no_buttons (poll_buttons no_buttons started)) < int TOTAL_BALLS"
    by (simp add: TOTAL_BALLS_def)
  then show "running released"
    unfolding released_def by (simp add: main_loop_body_running p started_fields)
  show "\<not> last_btn_a released" "\<not> last_btn_b released"
    unfolding released_def by (simp_all add: main_loop_body_buttons no_buttons_def)
qed

text \<open>
  The start button released for one pass of the run and pressed again: a rising edge while
  running.
\<close>

theorem start_ignored_witness:
  "running released \<and> btn_a press_a \<and> \<not> last_btn_a released \<and>
   handle_start press_a released = released \<and>
   \<not> (btn_b press_a \<and> \<not> last_btn_b released) \<and>
   running (poll_buttons press_a released) \<and>
   ball_count (poll_buttons press_a released) = ball_count released"
proof -
  have h: "running released"
    by (rule released_fields)
  have n: "\<not> (btn_b press_a \<and> \<not> last_btn_b released)" "btn_a press_a"
    by (simp_all add: press_a_def)
  show ?thesis
    using h n start_ignored_while_running [OF h, of press_a] by (simp add: released_fields)
qed

text \<open>
  C4, as the code has it.  After a pass of the loop that sees a rising edge of the reset
  button, \<open>running\<close> is false, every particle slot is inactive and uncounted and every bin
  is zero.  \<open>ball_count\<close> is not written by the reset branch: it is what it was, or zero
  when the start branch ran in the same pass.
\<close>

theorem stop_resets:
  assumes "btn_b inp" and "\<not> last_btn_b s"
    and "length (balls s) = TOTAL_BALLS" and "length (bins s) = NUM_BINS"
  shows "\<not> running (main_loop_body g rand inp s) \<and>
         (\<forall>i<TOTAL_BALLS. \<not> active (balls (main_loop_body g rand inp s) ! i) \<and>
                           \<not> counted (balls (main_loop_body g rand inp s) ! i)) \<and>
         (\<forall>j<NUM_BINS. bins (main_loop_body g rand inp s) ! j = 0) \<and>
         ball_count (main_loop_body g rand inp s) =
           (if btn_a inp \<and> \<not> last_btn_a s \<and> \<not> running s then 0 else ball_count s)"
proof -
  define s1 where "s1 = handle_start inp s"
  have l1: "length (balls s1) = TOTAL_BALLS" "length (bins s1) = NUM_BINS" "\<not> last_btn_b s1"
    using assms by (simp_all add: s1_def handle_start_def reset_arrays reset_fields)
  have bc: "ball_count s1 = (if btn_a inp \<and> \<not> last_btn_a s \<and> \<not> running s then 0 else ball_count s)"
    by (simp add: s1_def handle_start_def reset_fields)
  have p: "poll_buttons inp s =
      (reset_simulation (s1\<lparr>running := False\<rparr>))\<lparr>last_btn_a := btn_a inp, last_btn_b := btn_b inp\<rparr>"
    using assms(1) l1(3) by (simp add: poll_buttons_def handle_stop_def s1_def)
  have a: "balls (reset_simulation (s1\<lparr>running := False\<rparr>)) = map reset_ball (balls s1)"
    "bins (reset_simulation (s1\<lparr>running := False\<rparr>)) = map (\<lambda>_. 0) (bins s1)"
    using l1 by (simp_all add: reset_arrays)
  have idle: "\<not> running (poll_buttons inp s)"
    by (simp add: p reset_fields)
  show ?thesis
    unfolding main_loop_body_idle [OF idle] p
    using l1 by (simp add: a reset_fields bc reset_ball_def)
qed

text \<open>
  The reset button pressed in the pass after the run was started.
\<close>

theorem stop_resets_witness:
  "btn_b press_b \<and> \<not> last_btn_b started \<and> length (balls started) = TOTAL_BALLS \<and>
   length (bins started) = NUM_BINS \<and>
   \<not> running (main_loop_body board always_right press_b started) \<and>
   \<not> active (balls (main_loop_body board always_right press_b started) ! 0) \<and>
   bins (main_loop_body board always_right press_b started) ! 3 = 0 \<and>
   ball_count (main_loop_body board always_right press_b started) = 1"
proof -
  have h: "btn_b press_b" "\<not> last_btn_b started" "length (balls started) = TOTAL_BALLS"
    "length (bins started) = NUM_BINS"
    by (simp_all add: press_b_def started_fields)
  show ?thesis
    using h stop_resets [OF h, of board always_right]
    by (simp add: started_fields TOTAL_BALLS_def NUM_BINS_def press_b_def)
qed

text \<open>
  C4 as stated fails there: one particle had been released, and \<open>ball_count\<close> is still 1
  after the reset.
\<close>

theorem stop_keeps_count_counterexample:
  "ball_count (main_loop_body board always_right press_b started) = 1 \<and>
   \<not> ball_count (main_loop_body board always_right press_b started) = 0"
proof -
  have "\<not> running (poll_buttons press_b started)"
    by (simp add: poll_buttons_def handle_stop_def handle_start_def press_b_def started_fields
        reset_fields)
  then have "main_loop_body board always_right press_b started = poll_buttons press_b started"
    by (rule main_loop_body_idle)
  then show ?thesis
    by (simp add: poll_buttons_def handle_stop_def handle_start_def press_b_def started_fields
        reset_fields)
qed

text \<open>
  A particle at \<open>y = 62.5\<close> reaches exactly the display height 64 and is inactive after
  the call.
\<close>

theorem exit_same_call_witness:
  "active edge_ball \<and>
   pos_y (fst (update_ball board always_right (edge_ball, 0))) = i2f (display_height board) \<and>
   \<not> active (fst (update_ball board always_right (edge_ball, 0)))"
proof -
  have h: "active edge_ball"
    by (simp add: edge_ball_def)
  have v: "fadd (pos_y edge_ball) (3 / 2) = 64" "i2f (display_height board) = 64"
    by (simp_all add: edge_ball_def board_fields float_eval)
  show ?thesis
    using h exit_same_call [OF h, of board always_right 0] by (simp add: v)
qed

lemma nearest_far: "nearest_bin board far_ball = 0"
  unfolding nearest_bin_def board_fields NUM_BINS_def far_ball_def
  by (simp add: scan_step_def upt_conv_Cons f2i_def wrap32_def c_abs_def INT_MAX_def INT_MIN_def
      Let_def)

text \<open>
  A particle a million pixels to the right of the display is credited to bin 0.
\<close>

theorem settle_in_bounds_witness:
  "length [0, 0, 0, 0, 0, 0, 0 :: int] = NUM_BINS \<and> nearest_bin board far_ball < NUM_BINS \<and>
   snd (settle board far_ball [0, 0, 0, 0, 0, 0, 0]) ! 0 = 1 \<and>
   (6::nat) < NUM_BINS \<and> 6 \<noteq> nearest_bin board far_ball \<and>
   snd (settle board far_ball [0, 0, 0, 0, 0, 0, 0]) ! 6 = 0"
proof -
  have h: "length [0, 0, 0, 0, 0, 0, 0 :: int] = NUM_BINS"
    by (simp add: NUM_BINS_def)
  show ?thesis
    using h settle_in_bounds [of board far_ball "[0, 0, 0, 0, 0, 0, 0]"]
    by (simp add: nearest_far NUM_BINS_def wrap32_def)
qed

text \<open>
  Row 11 has twelve pins; pins 2 and 9 are at 47 and 80.
\<close>

theorem lattice_rows_symmetric_witness:
  "(11::nat) < ROWS \<and> (2::nat) \<le> 11 \<and> pins_per_row (init_pins 128 8) ! 11 = 12 \<and>
   pin_x (pins board ! 11 ! 2) + pin_x (pins board ! 11 ! (11 - 2)) = display_width board - 1"
proof -
  have h: "(11::nat) < ROWS" "(2::nat) \<le> 11"
    by (simp_all add: ROWS_def BASE_PINS_def)
  have p: "pin_x (pins board ! 11 ! 2) = 47" "pin_x (pins board ! 11 ! 9) = 80"
    unfolding board_pins by simp_all
  show ?thesis
    using h lattice_rows_symmetric [OF h, of 128 8] by (simp add: p board_fields)
qed

section \<open>The last pass of a run\<close>

lemma ball_step_inactive:
  assumes "j < length (balls s)" and "\<not> active (balls s ! j)"
  shows "\<not> active (balls (ball_step g rand i s) ! j)"
proof (cases "j = i")
  case True
  then show ?thesis
    using assms by (simp add: ball_step_def Let_def settle_def)
next
  case False
  then show ?thesis
    using assms by (simp add: ball_step_other)
qed

lemma fold_inactive_ball:
  assumes "j < length (balls s)" and "\<not> active (balls s ! j)"
  shows "\<not> active (balls (fold (ball_step g rand) [0..<n] s) ! j)"
proof (induction n)
  case 0
  show ?case using assms by simp
next
  case (Suc n)
  have "j < length (balls (fold (ball_step g rand) [0..<n] s))"
    using assms(1) by (simp add: fold_length)
  then show ?case
    using Suc by (simp add: ball_step_inactive)
qed

lemma last_pass_balls:
  "length (balls last_pass) = 100"
  "i < 99 \<Longrightarrow> balls last_pass ! i = done_ball"
  "balls last_pass ! 99 = last_ball"
  by (simp_all add: last_pass_def nth_append)

lemma last_pass_inv: "sim_inv last_pass"
proof -
  have d: "drop (nat (ball_count last_pass)) (balls last_pass) = []"
    by (simp add: last_pass_def)
  have f: "filter counted (balls last_pass) = replicate 99 done_ball"
    by (simp add: last_pass_def done_ball_def last_ball_def)
  have a: "list_all (\<lambda>b. \<not> (active b \<and> counted b)) (balls last_pass)"
    by (simp add: last_pass_def done_ball_def last_ball_def list_all_iff)
  have e: "list_ex active (balls last_pass)"
    by (simp add: last_pass_def last_ball_def list_ex_iff)
  have c: "core_inv last_pass"
    unfolding core_inv_def d f using a
    by (simp add: last_pass_balls TOTAL_BALLS_def) (simp add: last_pass_def NUM_BINS_def)
  show ?thesis
    using c e by (simp add: sim_inv_def)
qed

text \<open>
  The last pass of a run: the last particle goes from \<open>y = 63\<close> to \<open>64.5\<close>, the run
  ends, and the bins still add up to 99.
\<close>

theorem last_ball_never_binned_witness:
  "sim_inv last_pass \<and> \<not> i2f (display_height board) \<le> fadd 0 (3 / 2) \<and>
   running (poll_buttons no_buttons last_pass) \<and>
   \<not> running (main_loop_body board always_right no_buttons last_pass) \<and>
   sum_list (bins (main_loop_body board always_right no_buttons last_pass)) < int TOTAL_BALLS"
proof -
  have h2: "\<not> i2f (display_height board) \<le> fadd 0 (3 / 2)"
    by (simp add: board_fields float_eval)
  have p: "poll_buttons no_buttons last_pass = last_pass"
    by (simp add: poll_buttons_def handle_start_def handle_stop_def no_buttons_def last_pass_def)
  have h3: "running (poll_buttons no_buttons last_pass)"
    unfolding p by (simp add: last_pass_def)
  define s3 where "s3 = fold (ball_step board always_right) [0..<100] last_pass"
  have body: "main_loop_body board always_right no_buttons last_pass = finish_check s3"
    unfolding main_loop_body_def p s3_def
    by (simp add: spawn_def TOTAL_BALLS_def) (simp add: last_pass_def)
  have len: "length (balls s3) = 100"
    by (simp add: s3_def fold_length last_pass_balls)
  have gone: "\<not> active (balls s3 ! i)" if "i < 100" for i
  proof (cases "i < 99")
    case True
    have "\<not> active (balls last_pass ! i)"
      using True by (simp add: last_pass_balls done_ball_def)
    then show ?thesis
      unfolding s3_def using that by (intro fold_inactive_ball) (simp_all add: last_pass_balls)
  next
    case False
    then have i: "i = 99"
      using that by simp
    have e: "i2f (display_height board) \<le> fadd (pos_y last_ball) (3 / 2)"
      by (simp add: board_fields last_ball_def float_eval)
    have "active (balls s3 ! 99) \<longleftrightarrow>
        \<not> i2f (display_height board) \<le> fadd (pos_y (balls last_pass ! 99)) (3 / 2)"
      unfolding s3_def using fold_active_ball [of 99 100 last_pass board always_right]
      by (simp add: last_pass_balls last_ball_def)
    then show ?thesis
      using e by (simp add: i last_pass_balls)
  qed
  have "\<not> list_ex active (balls s3)"
    using gone len by (auto simp add: list_ex_iff in_set_conv_nth)
  moreover have "ball_count s3 = 100"
    by (simp add: s3_def fold_ball_step_fields last_pass_def)
  ultimately have h4: "\<not> running (main_loop_body board always_right no_buttons last_pass)"
    unfolding body using len by (simp add: finish_check_def TOTAL_BALLS_def)
  show ?thesis
    using last_pass_inv h2 h3 h4 last_ball_never_binned [OF last_pass_inv h2 h3 h4] by simp
qed

section \<open>The bin credited to a settled particle\<close>















lemma poll_buttons_core_inv:
  assumes "core_inv s"
  shows "core_inv (poll_buttons inp s)"
proof -
  have len: "length (balls s) = TOTAL_BALLS" "length (bins s) = NUM_BINS"
    "0 \<le> ball_count s" "ball_count s \<le> int TOTAL_BALLS"
    using assms by (simp_all add: core_inv_def)
  define s1 where "s1 = handle_start inp s"
  have s1: "core_inv s1"
  proof (cases "btn_a inp \<and> \<not> last_btn_a s \<and> \<not> running s")
    case True
    have "core_inv (reset_simulation (s\<lparr>running := True, ball_count := 0\<rparr>))"
      by (rule reset_core_inv) (simp_all add: len)
    then show ?thesis
      using True by (simp add: s1_def handle_start_def core_inv_def reset_fields)
  next
    case False
    then show ?thesis
      using assms by (auto simp add: s1_def handle_start_def)
  qed
  then have len1: "length (balls s1) = TOTAL_BALLS" "length (bins s1) = NUM_BINS"
    "0 \<le> ball_count s1" "ball_count s1 \<le> int TOTAL_BALLS"
    by (simp_all add: core_inv_def)
  have "core_inv (handle_stop inp s1)"
  proof (cases "btn_b inp \<and> \<not> last_btn_b s1")
    case True
    have "core_inv (reset_simulation (s1\<lparr>running := False\<rparr>))"
      by (rule reset_core_inv) (simp_all add: len1)
    then show ?thesis
      using True by (simp add: handle_stop_def)
  next
    case False
    then show ?thesis
      using s1 by (auto simp add: handle_stop_def)
  qed
  then show ?thesis
    by (simp add: poll_buttons_def s1_def core_inv_def)
qed

lemma core_inv_count: "core_inv s \<Longrightarrow> nat (ball_count s) \<le> length (balls s)"
  by (simp add: core_inv_def nat_le_iff)

lemma track_invI:
  assumes "core_inv s"
    and "\<And>i. running s \<Longrightarrow> i < nat (ball_count s) \<Longrightarrow> \<exists>m. flight g (balls s ! i) m"
  shows "track_inv g s"
proof -
  have "nat (ball_count s) \<le> length (balls s)"
    using assms(1) by (rule core_inv_count)
  then show ?thesis
    using assms by (auto simp add: track_inv_def list_all_iff in_set_conv_nth)
qed

lemma track_invD:
  assumes "track_inv g s"
  shows "core_inv s"
    and "running s \<Longrightarrow> i < nat (ball_count s) \<Longrightarrow> \<exists>m. flight g (balls s ! i) m"
proof -
  show c: "core_inv s"
    using assms by (simp add: track_inv_def)
  assume r: "running s" and i: "i < nat (ball_count s)"
  have "nat (ball_count s) \<le> length (balls s)"
    using c by (rule core_inv_count)
  then have "balls s ! i \<in> set (take (nat (ball_count s)) (balls s))"
    using i by (auto simp add: in_set_conv_nth intro!: exI [of _ i])
  then show "\<exists>m. flight g (balls s ! i) m"
    using assms r by (simp add: track_inv_def list_all_iff)
qed

lemma poll_buttons_track:
  assumes "track_inv g s"
  shows "track_inv g (poll_buttons inp s)"
proof (rule track_invI)
  show "core_inv (poll_buttons inp s)"
    using track_invD(1) [OF assms] by (rule poll_buttons_core_inv)
next
  fix i
  assume r: "running (poll_buttons inp s)" and i: "i < nat (ball_count (poll_buttons inp s))"
  have same: "running s \<and> ball_count (poll_buttons inp s) = ball_count s \<and>
      balls (poll_buttons inp s) = balls s"
    using r i
    by (auto simp add: poll_buttons_def handle_start_def handle_stop_def reset_fields
        split: if_splits)
  then show "\<exists>m. flight g (balls (poll_buttons inp s) ! i) m"
    using track_invD(2) [OF assms, of i] i by simp
qed

lemma spawn_track:
  assumes "track_inv g s"
  shows "track_inv g (spawn g inp s)"
proof (rule track_invI)
  show "core_inv (spawn g inp s)"
    using track_invD(1) [OF assms] by (rule spawn_core_inv)
next
  fix i
  assume r: "running (spawn g inp s)" and i: "i < nat (ball_count (spawn g inp s))"
  have c: "core_inv s"
    by (rule track_invD(1) [OF assms])
  have rs: "running s"
    using r by (simp add: spawn_fields)
  show "\<exists>m. flight g (balls (spawn g inp s) ! i) m"
  proof (cases "ball_count s < int TOTAL_BALLS \<and> RELEASE_DELAY \<le> t_check inp - last_rel s")
    case False
    then have "spawn g inp s = s"
      by (auto simp add: spawn_def)
    then show ?thesis
      using track_invD(2) [OF assms rs, of i] i by simp
  next
    case True
    define j where "j = nat (ball_count s)"
    have j: "j < length (balls s)" "nat (ball_count s + 1) = Suc j"
      using True c by (simp_all add: j_def core_inv_def nat_less_iff nat_add_distrib)
    have sp: "balls (spawn g inp s) = (balls s)[j := init_ball g (balls s ! j)]"
      "ball_count (spawn g inp s) = ball_count s + 1"
      using True by (simp_all add: spawn_def j_def)
    show ?thesis
    proof (cases "i = j")
      case True
      then have "balls (spawn g inp s) ! i = init_ball g (balls s ! j)"
        using j(1) by (simp add: sp)
      then show ?thesis
        using flight.released [of g "balls s ! j"] by auto
    next
      case False
      then have "i < nat (ball_count s)"
        using i j(2) by (simp add: sp j_def)
      then show ?thesis
        using track_invD(2) [OF assms rs, of i] False by (simp add: sp)
    qed
  qed
qed

lemma ball_step_flight:
  assumes "\<exists>m. flight g (balls s ! j) m" and "j < length (balls s)"
  shows "\<exists>m. flight g (balls (ball_step g rand i s) ! j) m"
proof (cases "j = i")
  case False
  then show ?thesis
    using assms by (simp add: ball_step_other)
next
  case True
  obtain m where m: "flight g (balls s ! i) m"
    using assms(1) True by blast
  show ?thesis
  proof (cases "active (balls s ! i)")
    case a: True
    obtain b' k' where u: "update_ball g rand (balls s ! i, rand_calls s) = (b', k')"
      by (cases "update_ball g rand (balls s ! i, rand_calls s)")
    have "balls (ball_step g rand i s) ! i = b'"
      using a assms(2) True by (simp add: ball_step_active u)
    then show ?thesis
      using flight.updated [OF m u] True by auto
  next
    case na: False
    show ?thesis
    proof (cases "counted (balls s ! i)")
      case True
      then have "ball_step g rand i s = s"
        using na by (simp add: ball_step_def)
      then show ?thesis
        using m \<open>j = i\<close> by auto
    next
      case False
      then have "balls (ball_step g rand i s) ! i = (balls s ! i)\<lparr>counted := True\<rparr>"
        using na assms(2) \<open>j = i\<close> by (simp add: ball_step_def settle_def Let_def)
      then show ?thesis
        using flight.credited [OF m, of True] \<open>j = i\<close> by auto
    qed
  qed
qed

lemma ball_step_track:
  assumes "track_inv g s" and "i < nat (ball_count s)"
  shows "track_inv g (ball_step g rand i s)"
proof (rule track_invI)
  show "core_inv (ball_step g rand i s)"
    using track_invD(1) [OF assms(1)] assms(2) by (rule ball_step_core_inv)
next
  fix j
  assume r: "running (ball_step g rand i s)" and j: "j < nat (ball_count (ball_step g rand i s))"
  have jj: "j < nat (ball_count s)" and rs: "running s"
    using r j by (simp_all add: ball_step_fields)
  have "j < length (balls s)"
    using jj core_inv_count [OF track_invD(1) [OF assms(1)]] by simp
  then show "\<exists>m. flight g (balls (ball_step g rand i s) ! j) m"
    using track_invD(2) [OF assms(1) rs jj] by (intro ball_step_flight)
qed

lemma fold_ball_step_track:
  assumes "track_inv g s" and "n \<le> nat (ball_count s)"
  shows "track_inv g (fold (ball_step g rand) [0..<n] s)"
  using assms(2)
proof (induction n)
  case 0
  show ?case using assms(1) by simp
next
  case (Suc n)
  then have t: "track_inv g (fold (ball_step g rand) [0..<n] s)"
    by simp
  have "ball_count (fold (ball_step g rand) [0..<n] s) = ball_count s"
    by (rule fold_ball_step_fields)
  then have "track_inv g (ball_step g rand n (fold (ball_step g rand) [0..<n] s))"
    using t Suc.prems by (intro ball_step_track) simp_all
  then show ?case
    by simp
qed

lemma finish_check_track:
  assumes "track_inv g s"
  shows "track_inv g (finish_check s)"
proof (cases "finish_check s = s")
  case True
  then show ?thesis
    using assms by simp
next
  case False
  then have "finish_check s = s\<lparr>running := False\<rparr>"
    by (auto simp add: finish_check_def split: if_splits)
  then show ?thesis
    using assms by (simp add: track_inv_def core_inv_def)
qed

lemma main_loop_body_track:
  assumes "track_inv g s"
  shows "track_inv g (main_loop_body g rand inp s)"
proof -
  have p: "track_inv g (poll_buttons inp s)"
    using assms by (rule poll_buttons_track)
  show ?thesis
  proof (cases "running (poll_buttons inp s)")
    case False
    then show ?thesis
      using p by (simp add: main_loop_body_def Let_def)
  next
    case True
    have "track_inv g (spawn g inp (poll_buttons inp s))"
      using p by (rule spawn_track)
    then have "track_inv g (fold (ball_step g rand)
        [0..<nat (ball_count (spawn g inp (poll_buttons inp s)))] (spawn g inp (poll_buttons inp s)))"
      by (rule fold_ball_step_track) simp
    then show ?thesis
      using True by (simp add: main_loop_body_def Let_def finish_check_track)
  qed
qed

lemma initial_state_track: "track_inv g (initial_state t0)"
  using initial_state_inv [of t0] by (simp add: track_inv_def sim_inv_def initial_fields)




end
